theory Spec2Isabelle
  imports Main "HOL-Library.Char_ord" "HOL-Library.List_Lexorder"
begin

section \<open>Python string operations used by asmpipe.py\<close>

text \<open>\<^verbatim>\<open>s.startswith(p)\<close> and \<^verbatim>\<open>s.endswith(p)\<close>.\<close>

fun startswith :: "string \<Rightarrow> string \<Rightarrow> bool" where
  "startswith s [] = True"
| "startswith [] (p # ps) = False"
| "startswith (c # cs) (p # ps) = (c = p \<and> startswith cs ps)"

definition endswith :: "string \<Rightarrow> string \<Rightarrow> bool" where
  "endswith s p = startswith (rev s) (rev p)"

text \<open>\<^verbatim>\<open>s.find(sub) != -1\<close>: \<open>sub\<close> occurs somewhere in \<open>s\<close>.\<close>

fun found :: "string \<Rightarrow> string \<Rightarrow> bool" where
  "found [] sub = (sub = [])"
| "found (c # cs) sub = (startswith (c # cs) sub \<or> found cs sub)"

text \<open>
  Replacement of every non-overlapping occurrence of a pattern, leftmost first, by the
  empty string: \<^verbatim>\<open>s.replace(p, "")\<close> and pandas' \<^verbatim>\<open>df.replace(p, "", regex=True)\<close>
  on one cell. A pattern position is a literal character or the regular expression's
  \<^verbatim>\<open>.\<close>; the counter is the number of characters of the current match still to drop.
\<close>

datatype pat = Lit char | Dot

fun matches :: "string \<Rightarrow> pat list \<Rightarrow> bool" where
  "matches s [] = True"
| "matches [] (p # ps) = False"
| "matches (c # cs) (Lit p # ps) = (c = p \<and> matches cs ps)"
| "matches (c # cs) (Dot # ps) = matches cs ps"

fun delete_all :: "pat list \<Rightarrow> nat \<Rightarrow> string \<Rightarrow> string" where
  "delete_all p k [] = []"
| "delete_all p (Suc k) (c # cs) = delete_all p k cs"
| "delete_all p 0 (c # cs) =
     (if p \<noteq> [] \<and> matches (c # cs) p then delete_all p (length p - 1) cs
      else c # delete_all p 0 cs)"

definition replace_empty :: "string \<Rightarrow> string \<Rightarrow> string" where
  "replace_empty s p = delete_all (map Lit p) 0 s"

text \<open>\<^verbatim>\<open>name[:-8]\<close>: all but the last eight characters, empty when there are fewer.\<close>

definition drop_last8 :: "string \<Rightarrow> string" where
  "drop_last8 name = take (length name - 8) name"

section \<open>Sample discovery and the pairing check (lines 185 to 205)\<close>

text \<open>The loop of lines 187 to 192 over the result of \<^verbatim>\<open>glob.glob("*fastq.gz")\<close>.\<close>

fun discover :: "string list \<Rightarrow> string list \<Rightarrow> string list" where
  "discover [] sequence_list = sequence_list"
| "discover (sequence # sequences) sequence_list =
     (let name = replace_empty sequence ''.gz'';
          l1 = (if found name ''_1.fastq'' \<and> drop_last8 name \<notin> set sequence_list
                then sequence_list @ [drop_last8 name] else sequence_list);
          l2 = (if found name ''_2.fastq'' \<and> drop_last8 name \<notin> set l1
                then l1 @ [drop_last8 name] else l1)
      in discover sequences l2)"

text \<open>Lines 197 to 204 for one \<open>seqName\<close>: is one of the two mates not found?\<close>

definition lacks_mate :: "string list \<Rightarrow> string \<Rightarrow> bool" where
  "lacks_mate sequences seqName =
     (\<not> list_ex (\<lambda>sequence. found sequence (seqName @ ''_1.f'')) sequences
      \<or> \<not> list_ex (\<lambda>sequence. found sequence (seqName @ ''_2.f'')) sequences)"

definition missing_pairs :: "string list \<Rightarrow> string list \<Rightarrow> string list" where
  "missing_pairs sequences sequence_list = filter (lacks_mate sequences) sequence_list"

section \<open>Arguments, environment and state\<close>

text \<open>The parsed command line (lines 32 to 47).\<close>

record args =
  threads :: int
  noex :: bool
  nofqc :: bool
  nomlst :: bool
  noquast :: bool
  nocov :: bool
  klebs :: bool

text \<open>Lines 131 to 138: the job counts handed to \<^verbatim>\<open>parallel\<close>.\<close>

definition threads_of :: "args \<Rightarrow> int" where
  "threads_of a = (if threads a = 0 then 4 else threads a)"

definition unic_threads_of :: "args \<Rightarrow> int" where
  "unic_threads_of a = (if threads_of a > 8 then threads_of a div 8 else threads_of a)"

text \<open>
  Every external program the script starts through the shell, named by the call site and,
  for per-sample commands, the sample (or FastQC work item) substituted into the command
  line.
\<close>

datatype tool =
    Rename1 | Rename2 | MvValPre
  | Echo string | TrimGalore string | Cd | MvVal
  | FastQC string | MultiQC
  | MvRaw string | CdTrimmed | Unicycler string | MvRawJob string | MvReports
  | Quast | CdFasta | Mlst
  | BwaIndex string | BwaMem string | PicardConvert string | PicardSort string
  | PicardMarkDup string | PicardIndex string
  | EchoName string | TotSize string | EchoTot string | SamtoolsDepth string | RmTemp string
  | CatCov | Kleborate | MvFastq

datatype py_error =
  NameError | ValueError | ShutilError | FileNotFoundError | EmptyDataError | KeyError

type_synonym row = "string \<times> string option list"
type_synonym table = "row list"

text \<open>
  What the script observes of the outside world. \<open>status\<close> is the exit status of an
  external program when it is run; \<open>path_exists\<close> is the answer of
  \<^verbatim>\<open>os.path.exists\<close> for a trimmed-read or FastQC output path at the one moment the
  script asks for it; \<open>success_files\<close> are the files under \<^verbatim>\<open>success/\<close> when the run
  starts (paths relative to the working directory); \<open>hash_rank n\<close> fixes the iteration
  order of the \<open>n\<close>-th Python \<^verbatim>\<open>set\<close> the script builds; \<open>glob_fq\<close> is the result of
  \<^verbatim>\<open>glob.glob(item+'*_fq.gz')\<close>. For each table of the report, \<open>_old\<close> is what
  \<^verbatim>\<open>pd.read_csv\<close> and the column selection give on the file left by an earlier run and
  \<open>_new\<close> what they give after this run's stage has rewritten it; an absent or
  malformed file is the error raised.
\<close>

record env =
  versions_ok :: bool
  move_ok :: bool
  listing :: "string list"
  sequences :: "string list"
  status :: "tool \<Rightarrow> int"
  path_exists :: "string \<Rightarrow> bool"
  success_files :: "string set"
  hash_rank :: "nat \<Rightarrow> string \<Rightarrow> nat"
  glob_fq :: "string \<Rightarrow> string list"
  mlst_old :: "py_error + table"
  mlst_new :: "py_error + table"
  quast_old :: "py_error + table"
  quast_new :: "py_error + table"
  cov_old :: "py_error + table"
  cov_new :: "py_error + table"
  fastqc_old :: "py_error + table"
  fastqc_new :: "py_error + table"

text \<open>
  The state threaded through \<open>main\<close>: the two accumulating lists, the files under
  \<^verbatim>\<open>success/\<close>, the external programs run so far, the files deleted by
  \<^verbatim>\<open>os.remove\<close>, and the contents of \<^verbatim>\<open>successful_sequences.txt\<close> and
  \<^verbatim>\<open>failed_sequences.txt\<close> once this run has written them.
\<close>

record st =
  sequence_list :: "string list"
  unsuccessful_sequences :: "string list"
  files :: "string set"
  log :: "tool list"
  removed :: "string list"
  manifest :: "(string list \<times> string list) option"

definition init :: "env \<Rightarrow> st" where
  "init e = \<lparr>sequence_list = [], unsuccessful_sequences = [], files = success_files e,
             log = [], removed = [], manifest = None\<rparr>"

text \<open>Iterating over \<^verbatim>\<open>set(xs)\<close>: each element once, in an order fixed by the hashes.\<close>

definition py_set :: "(string \<Rightarrow> nat) \<Rightarrow> string list \<Rightarrow> string list" where
  "py_set rank xs = sort_key rank (remdups xs)"

section \<open>The shell\<close>

text \<open>
  A command line is a \<^verbatim>\<open>;\<close>-separated list: every command runs, and the exit status is
  that of the last one. \<^verbatim>\<open>touch\<close> creates its file and returns 0; an external program
  returns the status the environment gives it and leaves \<^verbatim>\<open>success/\<close> alone.
  \<^verbatim>\<open>parallel\<close> runs its job once for every argument and returns the number of failed
  jobs, at most 101.
\<close>

datatype simple = Ext tool | Touch string

datatype step = Run simple | Par int "simple list list"

fun sh_simple :: "env \<Rightarrow> simple \<Rightarrow> st \<Rightarrow> int \<times> st" where
  "sh_simple e (Ext t) s = (status e t, s\<lparr>log := log s @ [t]\<rparr>)"
| "sh_simple e (Touch p) s = (0, s\<lparr>files := insert p (files s)\<rparr>)"

fun sh_job :: "env \<Rightarrow> simple list \<Rightarrow> st \<Rightarrow> int \<times> st" where
  "sh_job e [] s = (0, s)"
| "sh_job e [c] s = sh_simple e c s"
| "sh_job e (c # d # cs) s = sh_job e (d # cs) (snd (sh_simple e c s))"

fun parallel :: "env \<Rightarrow> simple list list \<Rightarrow> st \<Rightarrow> int \<times> st" where
  "parallel e [] s = (0, s)"
| "parallel e (j # js) s =
     (let r = sh_job e j s; q = parallel e js (snd r)
      in (min 101 ((if fst r \<noteq> 0 then 1 else 0) + fst q), snd q))"

fun sh_step :: "env \<Rightarrow> step \<Rightarrow> st \<Rightarrow> int \<times> st" where
  "sh_step e (Run c) s = sh_simple e c s"
| "sh_step e (Par n js) s = parallel e js s"

fun sh :: "env \<Rightarrow> step list \<Rightarrow> st \<Rightarrow> int \<times> st" where
  "sh e [] s = (0, s)"
| "sh e [c] s = sh_step e c s"
| "sh e (c # d # cs) s = sh e (d # cs) (snd (sh_step e c s))"

text \<open>
  \<open>run_command\<close> (lines 57 to 67) raises on a non-zero exit status. The exception it
  names, \<^verbatim>\<open>CommandError\<close>, is defined nowhere in the file, so what is raised is a
  \<^verbatim>\<open>NameError\<close>. The result is whether it raised, with the state the command left.
  A shell that cannot be started at all (the \<^verbatim>\<open>OSError\<close> branch) is not distinguished
  from a non-zero exit status: both end in the same \<^verbatim>\<open>raise\<close>.
\<close>

definition run_command :: "env \<Rightarrow> step list \<Rightarrow> st \<Rightarrow> bool \<times> st" where
  "run_command e command s = (let r = sh e command s in (fst r \<noteq> 0, snd r))"

type_synonym outcome = "py_error \<times> st + st"

text \<open>\<open>file_exists\<close> (lines 69 to 78); Python's implicit \<^verbatim>\<open>None\<close> is \<open>None\<close>.\<close>

definition file_exists :: "env \<Rightarrow> string list \<Rightarrow> string \<Rightarrow> string \<Rightarrow> string list option" where
  "file_exists e seqlist path extention =
     (let re_run = filter (\<lambda>seq. \<not> path_exists e (path @ seq @ extention)) seqlist
      in if re_run \<noteq> [] then Some re_run else None)"

text \<open>\<^verbatim>\<open>if r: for item in r: run_list.append(...)\<close>.\<close>

definition extend :: "string list option \<Rightarrow> string list" where
  "extend r = (case r of None \<Rightarrow> [] | Some xs \<Rightarrow> xs)"

text \<open>\<^verbatim>\<open>xs.remove(x)\<close> raises \<^verbatim>\<open>ValueError\<close> when \<open>x\<close> is not in the list.\<close>

definition py_remove :: "string \<Rightarrow> string list \<Rightarrow> string list option" where
  "py_remove x xs = (if x \<in> set xs then Some (remove1 x xs) else None)"

section \<open>The stages of \<open>main\<close>\<close>

subsection \<open>Trimming (lines 223 to 257)\<close>

definition trim_job :: "string \<Rightarrow> simple list" where
  "trim_job x = [Ext (Echo x), Ext (TrimGalore x)]"

text \<open>
  One \<^verbatim>\<open>parallel\<close> command for the whole batch, followed by \<^verbatim>\<open>; cd\<close>. In the handler,
  \<open>item\<close> is the variable left by the loop of lines 245 and 246: the last element of the
  set in iteration order.
\<close>

definition trimming :: "args \<Rightarrow> env \<Rightarrow> st \<Rightarrow> outcome" where
  "trimming a e s =
     (let s0 = snd (run_command e [Run (Ext MvValPre)] s);
          run_list =
            extend (file_exists e (sequence_list s0) ''./trimmed_reads/'' ''_1_val_1.fq.gz'')
            @ extend (file_exists e (sequence_list s0) ''./trimmed_reads/'' ''_2_val_2.fq.gz'')
      in if run_list = [] then Inr s0
         else
           (let uniq_run_list = py_set (hash_rank e 0) run_list;
                item = last uniq_run_list;
                r1 = run_command e
                       [Par (threads_of a) (map trim_job uniq_run_list), Run (Ext Cd)] s0;
                r2 = (if fst r1 then r1 else run_command e [Run (Ext MvVal)] (snd r1))
            in if \<not> fst r2 then Inr (snd r2)
               else
                 (let s3 = (snd r2)\<lparr>removed := removed (snd r2) @ glob_fq e item\<rparr>
                  in case py_remove item (sequence_list s3) of
                       None \<Rightarrow> Inl (ValueError, s3)
                     | Some l \<Rightarrow>
                         Inr (s3\<lparr>sequence_list := l,
                                  unsuccessful_sequences :=
                                    unsuccessful_sequences s3 @ [item]\<rparr>))))"

subsection \<open>FastQC and MultiQC (lines 260 to 300)\<close>

definition fastqc_job :: "string \<Rightarrow> simple list" where
  "fastqc_job x = [Ext (Echo x), Ext (FastQC x)]"

definition fastqc_items :: "env \<Rightarrow> string list \<Rightarrow> string list" where
  "fastqc_items e seqs =
     map (\<lambda>item. item @ ''_1_val_1.fq.gz'')
       (extend (file_exists e seqs ''./QC/fastQC/'' ''_1_val_1_fastqc.zip''))
     @ map (\<lambda>item. item @ ''_2_val_2.fq.gz'')
       (extend (file_exists e seqs ''./QC/fastQC/'' ''_2_val_2_fastqc.zip''))"

definition fastqc :: "args \<Rightarrow> env \<Rightarrow> st \<Rightarrow> outcome" where
  "fastqc a e s =
     (if nofqc a \<or> noex a then Inr s
      else
        (let run_list = fastqc_items e (sequence_list s);
             s1 = (if run_list = [] then s
                   else
                     (let uniq_run_list = py_set (hash_rank e 1) run_list;
                          item = last uniq_run_list;
                          r = run_command e
                                [Par (threads_of a) (map fastqc_job uniq_run_list),
                                 Run (Ext Cd)] s
                      in if fst r
                         then (snd r)\<lparr>unsuccessful_sequences :=
                                         unsuccessful_sequences (snd r) @ [item]\<rparr>
                         else snd r))
         in Inr (snd (run_command e [Run (Ext MultiQC)] s1))))"

subsection \<open>Assembly (lines 302 to 358)\<close>

definition assembly_marker :: "string \<Rightarrow> string" where
  "assembly_marker seq = ''success/'' @ seq @ ''_Assembly_complete.txt''"

text \<open>Lines 309 to 315. The \<^verbatim>\<open>mv\<close> of line 312 is outside any \<^verbatim>\<open>try\<close>.\<close>

fun assembly_scan ::
  "env \<Rightarrow> string list \<Rightarrow> string list \<Rightarrow> st \<Rightarrow> py_error \<times> st + string list \<times> st" where
  "assembly_scan e [] run_list s = Inr (run_list, s)"
| "assembly_scan e (seq # seqs) run_list s =
     (if assembly_marker seq \<in> files s
      then (let r = run_command e [Run (Ext (MvRaw seq))] s
            in if fst r then Inl (NameError, snd r)
               else assembly_scan e seqs run_list (snd r))
      else assembly_scan e seqs (run_list @ [seq]) s)"

text \<open>
  The renaming and copying of the assembly output (lines 333 to 351) is wrapped in
  \<^verbatim>\<open>try\<close> and touches neither list nor \<^verbatim>\<open>success/\<close>; it has no counterpart here.
\<close>

text \<open>
  The job of lines 328 and 329. It runs in \<^verbatim>\<open>trimmed_reads/\<close>, so
  \<^verbatim>\<open>../success/\<close> is the marker directory when the leading \<^verbatim>\<open>cd\<close> worked.
\<close>

definition unicycler_job :: "env \<Rightarrow> string \<Rightarrow> simple list" where
  "unicycler_job e x =
     [Ext (Echo x), Ext (Unicycler x),
      Touch ((if status e CdTrimmed = 0 then [] else ''../'') @ assembly_marker x),
      Ext (MvRawJob x)]"

definition assembly :: "args \<Rightarrow> env \<Rightarrow> st \<Rightarrow> outcome" where
  "assembly a e s =
     (case assembly_scan e (sequence_list s) [] s of
        Inl x \<Rightarrow> Inl x
      | Inr (run_list, s1) \<Rightarrow>
          (let s2 = (if run_list = [] then s1
                     else
                       (let uniq_run_list = py_set (hash_rank e 2) run_list
                        in snd (run_command e
                                  [Run (Ext CdTrimmed),
                                   Par (unic_threads_of a)
                                     (map (unicycler_job e) uniq_run_list),
                                   Run (Ext Cd)] s1)))
           in Inr (snd (run_command e [Run (Ext MvReports)] s2))))"

subsection \<open>Quast and mlst (lines 360 to 387)\<close>

definition quast :: "args \<Rightarrow> env \<Rightarrow> st \<Rightarrow> outcome" where
  "quast a e s =
     (if noquast a \<or> noex a then Inr s else Inr (snd (run_command e [Run (Ext Quast)] s)))"

definition mlst :: "args \<Rightarrow> env \<Rightarrow> st \<Rightarrow> outcome" where
  "mlst a e s =
     (if nomlst a \<or> noex a then Inr s
      else Inr (snd (run_command e [Run (Ext CdFasta), Run (Ext Mlst), Run (Ext Cd)] s)))"

subsection \<open>Read depth (lines 389 to 432)\<close>

definition depth_marker :: "string \<Rightarrow> string" where
  "depth_marker seq = ''success/'' @ seq @ ''_readDepth.Success''"

text \<open>The four commands of one sample (lines 414 to 424); the first that raises ends the
  \<^verbatim>\<open>try\<close> block.\<close>

definition depth_try :: "env \<Rightarrow> string \<Rightarrow> st \<Rightarrow> bool \<times> st" where
  "depth_try e item s =
     (let r1 = run_command e [Run (Ext (BwaIndex item))] s;
          r2 = (if fst r1 then r1
                else run_command e
                       [Run (Ext (BwaMem item)), Run (Ext (PicardConvert item)),
                        Run (Ext (PicardSort item)), Run (Ext (PicardMarkDup item)),
                        Run (Ext (PicardIndex item))] (snd r1));
          r3 = (if fst r2 then r2
                else run_command e
                       [Run (Ext (EchoName item)), Run (Ext (TotSize item)),
                        Run (Ext (EchoTot item)), Run (Ext (SamtoolsDepth item)),
                        Run (Ext (RmTemp item))] (snd r2))
      in if fst r3 then r3 else run_command e [Run (Touch (depth_marker item))] (snd r3))"

fun depth_loop :: "env \<Rightarrow> string list \<Rightarrow> st \<Rightarrow> outcome" where
  "depth_loop e [] s = Inr s"
| "depth_loop e (item # items) s =
     (let r = depth_try e item s
      in if \<not> fst r then depth_loop e items (snd r)
         else
           (case py_remove item (sequence_list (snd r)) of
              None \<Rightarrow> Inl (ValueError, snd r)
            | Some l \<Rightarrow>
                depth_loop e items
                  ((snd r)\<lparr>sequence_list := l,
                           unsuccessful_sequences :=
                             unsuccessful_sequences (snd r) @ [item]\<rparr>)))"

definition depth_list :: "st \<Rightarrow> string list" where
  "depth_list s = filter (\<lambda>seq. depth_marker seq \<notin> files s) (sequence_list s)"

text \<open>The \<^verbatim>\<open>cat\<close> of line 432 is outside any \<^verbatim>\<open>try\<close>.\<close>

definition depth :: "args \<Rightarrow> env \<Rightarrow> st \<Rightarrow> outcome" where
  "depth a e s =
     (if nocov a \<or> noex a then Inr s
      else
        (case (if depth_list s = [] then Inr s
               else depth_loop e (py_set (hash_rank e 3) (depth_list s)) s) of
           Inl x \<Rightarrow> Inl x
         | Inr s1 \<Rightarrow>
             (let r = run_command e [Run (Ext CatCov)] s1
              in if fst r then Inl (NameError, snd r) else Inr (snd r))))"

subsection \<open>Kleborate (lines 434 to 443)\<close>

definition kleborate :: "args \<Rightarrow> env \<Rightarrow> st \<Rightarrow> outcome" where
  "kleborate a e s =
     (if klebs a then Inr (snd (run_command e [Run (Ext Kleborate)] s)) else Inr s)"

subsection \<open>The stages in order\<close>

fun run_stages :: "(st \<Rightarrow> outcome) list \<Rightarrow> st \<Rightarrow> outcome" where
  "run_stages [] s = Inr s"
| "run_stages (f # fs) s = (case f s of Inl x \<Rightarrow> Inl x | Inr s' \<Rightarrow> run_stages fs s')"

definition pipeline :: "args \<Rightarrow> env \<Rightarrow> (st \<Rightarrow> outcome) list" where
  "pipeline a e =
     [trimming a e, fastqc a e, assembly a e, quast a e, mlst a e, depth a e, kleborate a e]"

section \<open>The report (lines 456 to 491)\<close>

text \<open>
  A table is a list of rows; a row is its \<^verbatim>\<open>Assembly\<close> key and the cells of the other
  selected columns, \<open>None\<close> for a missing value. \<open>clean\<close> is
  \<^verbatim>\<open>df.replace(p, "", regex=True)\<close>, \<open>merge_outer\<close> is
  \<^verbatim>\<open>pd.merge(left, right, on='Assembly', how='outer')\<close> for a left table of \<open>wl\<close> and a
  right table of \<open>wr\<close> value columns: the union of the keys in lexicographic order, a key
  on one side only padded with missing values on the other.
\<close>

definition clean :: "pat list \<Rightarrow> table \<Rightarrow> table" where
  "clean p t = map (\<lambda>r. (delete_all p 0 (fst r), map (map_option (delete_all p 0)) (snd r))) t"

definition merge_key :: "nat \<Rightarrow> nat \<Rightarrow> table \<Rightarrow> table \<Rightarrow> string \<Rightarrow> table" where
  "merge_key wl wr left right k =
     (let ls = filter (\<lambda>r. fst r = k) left; rs = filter (\<lambda>r. fst r = k) right
      in if rs = [] then map (\<lambda>l. (k, snd l @ replicate wr None)) ls
         else if ls = [] then map (\<lambda>r. (k, replicate wl None @ snd r)) rs
         else concat (map (\<lambda>l. map (\<lambda>r. (k, snd l @ snd r)) rs) ls))"

definition merge_outer :: "nat \<Rightarrow> nat \<Rightarrow> table \<Rightarrow> table \<Rightarrow> table" where
  "merge_outer wl wr left right =
     concat (map (merge_key wl wr left right) (sort (remdups (map fst left @ map fst right))))"

text \<open>The file a \<^verbatim>\<open>pd.read_csv\<close> finds: rewritten by this run when its stage ran.\<close>

definition mlst_file :: "args \<Rightarrow> env \<Rightarrow> py_error + table" where
  "mlst_file a e = (if nomlst a \<or> noex a then mlst_old e else mlst_new e)"

definition quast_file :: "args \<Rightarrow> env \<Rightarrow> py_error + table" where
  "quast_file a e = (if noquast a \<or> noex a then quast_old e else quast_new e)"

definition cov_file :: "args \<Rightarrow> env \<Rightarrow> py_error + table" where
  "cov_file a e = (if nocov a \<or> noex a then cov_old e else cov_new e)"

definition fastqc_file :: "args \<Rightarrow> env \<Rightarrow> py_error + table" where
  "fastqc_file a e = (if nofqc a \<or> noex a then fastqc_old e else fastqc_new e)"

definition seq_df :: "string list \<Rightarrow> table" where
  "seq_df seqs = map (\<lambda>x. (x, [])) seqs"

text \<open>
  The four tables as they enter the joins, after the suffixes that the stages add to the
  sample names are removed (lines 462, 467, 477 and 483 to 488).
\<close>

definition mlst_df_sub :: "table \<Rightarrow> table" where
  "mlst_df_sub t = clean (map Lit ''_assembly'' @ [Dot] @ map Lit ''fasta'') t"

definition quast_df_sub :: "table \<Rightarrow> table" where
  "quast_df_sub t = clean (map Lit ''_assembly'') t"

definition cov_df_sub :: "table \<Rightarrow> table" where
  "cov_df_sub t = clean (map Lit '' '') t"

definition fastqc_df_sub :: "table \<Rightarrow> table" where
  "fastqc_df_sub t = remdups (clean (map Lit ''_2_val_2'') (clean (map Lit ''_1_val_1'') t))"

text \<open>No read is inside a \<^verbatim>\<open>try\<close>: the first one that raises ends the report.\<close>

definition report :: "args \<Rightarrow> env \<Rightarrow> string list \<Rightarrow> py_error + table" where
  "report a e seqs =
     (case mlst_file a e of
        Inl err \<Rightarrow> Inl err
      | Inr mlst_t \<Rightarrow>
     (let seq_df_mlst = merge_outer 0 2 (seq_df seqs) (mlst_df_sub mlst_t)
      in case quast_file a e of
           Inl err \<Rightarrow> Inl err
         | Inr quast_t \<Rightarrow>
     (let seq_df_mlst_quast = merge_outer 2 6 seq_df_mlst (quast_df_sub quast_t)
      in case cov_file a e of
           Inl err \<Rightarrow> Inl err
         | Inr cov_t \<Rightarrow>
     (let seq_df_mlst_quast_cov = merge_outer 8 2 seq_df_mlst_quast (cov_df_sub cov_t)
      in case fastqc_file a e of
           Inl err \<Rightarrow> Inl err
         | Inr fastqc_t \<Rightarrow>
             Inr (merge_outer 10 1 seq_df_mlst_quast_cov (fastqc_df_sub fastqc_t))))))"

section \<open>\<open>main\<close> (lines 110 to 500)\<close>

text \<open>
  How the process ends: the report written, \<^verbatim>\<open>sys.exit\<close>, or an exception nobody
  catches. With it comes the state reached.
\<close>

datatype ending = Finished table | SysExit | Crash py_error

text \<open>Lines 447 to 451: the two lists are written out.\<close>

definition write_manifest :: "st \<Rightarrow> st" where
  "write_manifest s = s\<lparr>manifest := Some (sequence_list s, unsuccessful_sequences s)\<rparr>"

definition finish :: "args \<Rightarrow> env \<Rightarrow> st \<Rightarrow> ending \<times> st" where
  "finish a e s =
     (case report a e (sequence_list s) of
        Inl err \<Rightarrow> (Crash err, s)
      | Inr t \<Rightarrow> (Finished t, snd (run_command e [Run (Ext MvFastq)] s)))"

text \<open>
  \<open>versions_ok\<close> stands for \<open>check_versions_doc\<close> (lines 82 to 103), which leaves through
  \<^verbatim>\<open>sys.exit\<close> when one of its commands fails, \<open>move_ok\<close> for the \<^verbatim>\<open>shutil.move\<close> of
  line 177. Logging, printing and the listing \<^verbatim>\<open>sequence_list.txt\<close> change nothing that
  is read again.
\<close>

text \<open>
  When no file ends in \<^verbatim>\<open>.fastq.gz\<close> (the \<^verbatim>\<open>else\<close> of line 453), \<open>sequence_list\<close> was
  never assigned and line 457 raises \<^verbatim>\<open>NameError\<close>.
\<close>

definition main :: "args \<Rightarrow> env \<Rightarrow> ending \<times> st" where
  "main a e =
     (if \<not> versions_ok e then (SysExit, init e)
      else if \<not> move_ok e then (Crash ShutilError, init e)
      else if list_ex (\<lambda>File. endswith File ''.fastq.gz'') (listing e) then
        (let r1 = run_command e [Run (Ext Rename1)] (init e)
         in if fst r1 then (Crash NameError, snd r1)
            else
              (let r2 = run_command e [Run (Ext Rename2)] (snd r1)
               in if fst r2 then (Crash NameError, snd r2)
                  else
                    (let s = (snd r2)\<lparr>sequence_list := discover (sequences e) []\<rparr>
                     in if missing_pairs (sequences e) (sequence_list s) \<noteq> []
                        then (SysExit, s)
                        else
                          (case run_stages (pipeline a e) s of
                             Inl x \<Rightarrow> (Crash (fst x), snd x)
                           | Inr s' \<Rightarrow> finish a e (write_manifest s')))))
      else (Crash NameError, init e))"

section \<open>Notions used in the statements\<close>

text \<open>What a command line leaves behind: the programs it ran and the files it touched.\<close>

fun simple_tools :: "simple \<Rightarrow> tool list" where
  "simple_tools (Ext t) = [t]"
| "simple_tools (Touch p) = []"

fun simple_touch :: "simple \<Rightarrow> string list" where
  "simple_touch (Ext t) = []"
| "simple_touch (Touch p) = [p]"

fun step_jobs :: "step \<Rightarrow> simple list" where
  "step_jobs (Run c) = [c]"
| "step_jobs (Par n js) = concat js"

definition effect :: "simple list \<Rightarrow> st \<Rightarrow> st" where
  "effect cs s = s\<lparr>files := files s \<union> set (concat (map simple_touch cs)),
                     log := log s @ concat (map simple_tools cs)\<rparr>"

text \<open>The state a stage ends in, whether it returned or raised.\<close>

fun state_of :: "outcome \<Rightarrow> st" where
  "state_of (Inl x) = snd x"
| "state_of (Inr s) = s"


text \<open>The samples discovered by a run.\<close>

definition discovered :: "env \<Rightarrow> string list" where
  "discovered e = discover (sequences e) []"

text \<open>The state in which the stages start: both renames done, the samples discovered.\<close>

definition start :: "env \<Rightarrow> st" where
  "start e = (effect [Ext Rename1, Ext Rename2] (init e))\<lparr>sequence_list := discovered e\<rparr>"

text \<open>The programs that \<^verbatim>\<open>--noex\<close> is documented to switch off.\<close>

fun extra :: "tool \<Rightarrow> bool" where
  "extra (FastQC w) = True"
| "extra MultiQC = True"
| "extra Quast = True"
| "extra CdFasta = True"
| "extra Mlst = True"
| "extra (BwaIndex x) = True"
| "extra (BwaMem x) = True"
| "extra (PicardConvert x) = True"
| "extra (PicardSort x) = True"
| "extra (PicardMarkDup x) = True"
| "extra (PicardIndex x) = True"
| "extra (EchoName x) = True"
| "extra (TotSize x) = True"
| "extra (EchoTot x) = True"
| "extra (SamtoolsDepth x) = True"
| "extra (RmTemp x) = True"
| "extra CatCov = True"
| "extra t = False"

text \<open>
  When may a program appear in the log of a run? A per-sample worker only for a sample
  whose sentinel file is absent, an optional stage only when no switch disables it.
\<close>

definition trimmed_absent :: "env \<Rightarrow> string \<Rightarrow> bool" where
  "trimmed_absent e x =
     (\<not> path_exists e (''./trimmed_reads/'' @ x @ ''_1_val_1.fq.gz'')
      \<or> \<not> path_exists e (''./trimmed_reads/'' @ x @ ''_2_val_2.fq.gz''))"

definition fastqc_absent :: "env \<Rightarrow> string \<Rightarrow> bool" where
  "fastqc_absent e w =
     list_ex (\<lambda>x. (w = x @ ''_1_val_1.fq.gz''
                   \<and> \<not> path_exists e (''./QC/fastQC/'' @ x @ ''_1_val_1_fastqc.zip''))
                \<or> (w = x @ ''_2_val_2.fq.gz''
                   \<and> \<not> path_exists e (''./QC/fastQC/'' @ x @ ''_2_val_2_fastqc.zip'')))
       (discovered e)"

definition depth_on :: "args \<Rightarrow> env \<Rightarrow> string \<Rightarrow> bool" where
  "depth_on a e x = (\<not> nocov a \<and> \<not> noex a \<and> depth_marker x \<notin> success_files e)"

fun permitted :: "args \<Rightarrow> env \<Rightarrow> tool \<Rightarrow> bool" where
  "permitted a e (TrimGalore x) = trimmed_absent e x"
| "permitted a e (FastQC w) = (\<not> nofqc a \<and> \<not> noex a \<and> fastqc_absent e w)"
| "permitted a e MultiQC = (\<not> nofqc a \<and> \<not> noex a)"
| "permitted a e (Unicycler x) = (assembly_marker x \<notin> success_files e)"
| "permitted a e (MvRawJob x) = (assembly_marker x \<notin> success_files e)"
| "permitted a e Quast = (\<not> noquast a \<and> \<not> noex a)"
| "permitted a e CdFasta = (\<not> nomlst a \<and> \<not> noex a)"
| "permitted a e Mlst = (\<not> nomlst a \<and> \<not> noex a)"
| "permitted a e (BwaIndex x) = depth_on a e x"
| "permitted a e (BwaMem x) = depth_on a e x"
| "permitted a e (PicardConvert x) = depth_on a e x"
| "permitted a e (PicardSort x) = depth_on a e x"
| "permitted a e (PicardMarkDup x) = depth_on a e x"
| "permitted a e (PicardIndex x) = depth_on a e x"
| "permitted a e (EchoName x) = depth_on a e x"
| "permitted a e (TotSize x) = depth_on a e x"
| "permitted a e (EchoTot x) = depth_on a e x"
| "permitted a e (SamtoolsDepth x) = depth_on a e x"
| "permitted a e (RmTemp x) = depth_on a e x"
| "permitted a e CatCov = (\<not> nocov a \<and> \<not> noex a)"
| "permitted a e Kleborate = klebs a"
| "permitted a e t = True"

definition log_ok :: "args \<Rightarrow> env \<Rightarrow> st \<Rightarrow> bool" where
  "log_ok a e s =
     (list_all (permitted a e) (log s) \<and> success_files e \<subseteq> files s
      \<and> set (sequence_list s) \<subseteq> set (discovered e))"

text \<open>
  From \<open>s\<close> to \<open>s'\<close> only permitted programs were run, no file under \<^verbatim>\<open>success/\<close>
  was lost, no sample joined the active list, and the manifests were not written.
\<close>

definition grows :: "args \<Rightarrow> env \<Rightarrow> st \<Rightarrow> st \<Rightarrow> bool" where
  "grows a e s s' =
     ((\<exists>ts. log s' = log s @ ts \<and> list_all (permitted a e) ts)
      \<and> files s \<subseteq> files s' \<and> set (sequence_list s') \<subseteq> set (sequence_list s)
      \<and> manifest s' = manifest s)"

text \<open>
  The cells a table of \<open>w\<close> value columns contributes to a report row of sample \<open>x\<close>:
  those of one of its rows for \<open>x\<close>, or \<open>w\<close> missing values when it has no row for \<open>x\<close>.
\<close>

definition block :: "nat \<Rightarrow> table \<Rightarrow> string \<Rightarrow> string option list \<Rightarrow> bool" where
  "block w t x c = ((x, c) \<in> set t \<or> (x \<notin> fst ` set t \<and> c = replicate w None))"

text \<open>The names FastQC is run on: the two trimmed read files of a sample.\<close>

definition fastqc_names :: "string list \<Rightarrow> string set" where
  "fastqc_names seqs =
     (\<lambda>x. x @ ''_1_val_1.fq.gz'') ` set seqs \<union> (\<lambda>x. x @ ''_2_val_2.fq.gz'') ` set seqs"

text \<open>
  How a stage may change the two lists: samples only leave the active list, the failed
  list only grows, a sample that leaves the first is in the second, and a name in both
  was in both before or is a FastQC name.
\<close>

definition lists_ok :: "string set \<Rightarrow> st \<Rightarrow> st \<Rightarrow> bool" where
  "lists_ok W s s' =
     (set (sequence_list s') \<subseteq> set (sequence_list s)
      \<and> set (unsuccessful_sequences s) \<subseteq> set (unsuccessful_sequences s')
      \<and> set (sequence_list s) \<subseteq> set (sequence_list s') \<union> set (unsuccessful_sequences s')
      \<and> (distinct (sequence_list s) \<longrightarrow>
           distinct (sequence_list s')
           \<and> set (sequence_list s') \<inter> set (unsuccessful_sequences s')
               \<subseteq> set (sequence_list s) \<inter> set (unsuccessful_sequences s) \<union> W))"

section \<open>Example runs\<close>

text \<open>
  A fresh working directory holding the files \<open>fs\<close>, in which every external program
  succeeds, no output exists yet, and every stage that runs leaves an empty table.
\<close>

definition fresh :: "string list \<Rightarrow> env" where
  "fresh fs = \<lparr>versions_ok = True, move_ok = True, listing = fs, sequences = fs,
     status = (\<lambda>t. 0), path_exists = (\<lambda>p. False), success_files = {},
     hash_rank = (\<lambda>n x. 0), glob_fq = (\<lambda>x. []),
     mlst_old = Inl FileNotFoundError, mlst_new = Inr [],
     quast_old = Inl FileNotFoundError, quast_new = Inr [],
     cov_old = Inl FileNotFoundError, cov_new = Inr [],
     fastqc_old = Inl FileNotFoundError, fastqc_new = Inr []\<rparr>"

definition all_on :: args where
  "all_on = \<lparr>threads = 4, noex = False, nofqc = False, nomlst = False, noquast = False,
     nocov = False, klebs = False\<rparr>"

text \<open>Sample \<open>A\<close> has no second mate; sample \<open>BA\<close> has both.\<close>

definition pair_gap :: env where
  "pair_gap = fresh [''A_1.fastq.gz'', ''BA_1.fastq.gz'', ''BA_2.fastq.gz'']"

text \<open>Unicycler exits with status 1 on the only sample.\<close>

definition unicycler_fails :: env where
  "unicycler_fails = (fresh [''A_1.fastq.gz'', ''A_2.fastq.gz''])
     \<lparr>status := (\<lambda>t. if t = Unicycler ''A'' then 1 else 0)\<rparr>"

text \<open>
  TrimGalore exits with status 1 on sample \<open>B\<close>; in the second run the \<^verbatim>\<open>mv\<close> of
  line 250 fails as well and the set of line 243 iterates \<open>B\<close> before \<open>A\<close>.
\<close>

definition trim_fails :: env where
  "trim_fails =
     (fresh [''A_1.fastq.gz'', ''A_2.fastq.gz'', ''B_1.fastq.gz'', ''B_2.fastq.gz''])
     \<lparr>status := (\<lambda>t. if t = TrimGalore ''B'' then 1 else 0)\<rparr>"

definition trim_fails_mv :: env where
  "trim_fails_mv = trim_fails
     \<lparr>status := (\<lambda>t. if t = TrimGalore ''B'' \<or> t = MvVal then 1 else 0),
      hash_rank := (\<lambda>n x. if x = ''A'' then 1 else 0)\<rparr>"

text \<open>
  A directory in which a sample is named like the first trimmed read file of sample \<open>A\<close>,
  every output but one FastQC archive exists, and \<^verbatim>\<open>cd\<close> back to the working directory
  fails.
\<close>

definition name_clash :: env where
  "name_clash =
     (fresh [''A_1.fastq.gz'', ''A_2.fastq.gz'', ''A_1_val_1.fq..gzgz_1.fastq.gz'',
             ''A_1_val_1.fq.gz_1.fXfastq.gz'', ''A_1_val_1.fq.gz_2.fXfastq.gz''])
     \<lparr>status := (\<lambda>t. if t = Cd then 1 else 0),
      path_exists := (\<lambda>p. p \<noteq> ''./QC/fastQC/A_1_val_1_fastqc.zip'')\<rparr>"


text \<open>The first command of the read-depth stage fails on sample \<open>A\<close>.\<close>

definition depth_fails :: env where
  "depth_fails =
     (fresh [''A_1.fastq.gz'', ''A_2.fastq.gz'', ''B_1.fastq.gz'', ''B_2.fastq.gz''])
     \<lparr>status := (\<lambda>t. if t = BwaIndex ''A'' then 1 else 0)\<rparr>"

text \<open>mlst has typed sample \<open>A\<close> only; the other tables are empty.\<close>

definition typed_a :: env where
  "typed_a =
     (fresh [''A_1.fastq.gz'', ''A_2.fastq.gz'', ''B_1.fastq.gz'', ''B_2.fastq.gz''])
     \<lparr>mlst_new := Inr [(''A_assembly.fasta'', [Some ''kpneumoniae'', Some ''11''])]\<rparr>"

section \<open>What a command line does to the state\<close>

lemma effect_Nil: "effect [] s = s"
  by (simp add: effect_def)

lemma effect_append: "effect (xs @ ys) s = effect ys (effect xs s)"
  by (simp add: effect_def Un_assoc)

lemma sh_simple_effect: "snd (sh_simple e c s) = effect [c] s"
  by (cases c) (simp_all add: effect_def)

lemma sh_job_effect: "snd (sh_job e j s) = effect j s"
proof (induction e j s rule: sh_job.induct)
  case (3 e c d cs s)
  have "effect (c # d # cs) s = effect (d # cs) (effect [c] s)"
    using effect_append [of "[c]" "d # cs" s] by simp
  with 3 show ?case by (simp add: sh_simple_effect)
qed (simp_all add: effect_Nil sh_simple_effect)

lemma parallel_effect: "snd (parallel e js s) = effect (concat js) s"
  by (induction js arbitrary: s) (simp_all add: effect_Nil Let_def sh_job_effect effect_append)

lemma sh_step_effect: "snd (sh_step e c s) = effect (step_jobs c) s"
  by (cases c) (simp_all add: sh_simple_effect parallel_effect)

lemma sh_effect: "snd (sh e cs s) = effect (concat (map step_jobs cs)) s"
proof (induction e cs s rule: sh.induct)
  case (3 e c d cs s)
  then show ?case by (simp add: sh_step_effect effect_append)
qed (simp_all add: effect_Nil sh_step_effect)

lemma run_command_effect: "snd (run_command e cs s) = effect (concat (map step_jobs cs)) s"
  by (simp add: run_command_def Let_def sh_effect)

lemma effect_lists [simp]:
  "sequence_list (effect cs s) = sequence_list s"
  "unsuccessful_sequences (effect cs s) = unsuccessful_sequences s"
  "manifest (effect cs s) = manifest s"
  "removed (effect cs s) = removed s"
  by (simp_all add: effect_def)

lemma effect_files: "files (effect cs s) = files s \<union> set (concat (map simple_touch cs))"
  by (simp add: effect_def)

lemma effect_log: "log (effect cs s) = log s @ concat (map simple_tools cs)"
  by (simp add: effect_def)

section \<open>Iterating over a set\<close>

lemma set_py_set: "set (py_set rank xs) = set xs"
  by (simp add: py_set_def)

lemma distinct_py_set: "distinct (py_set rank xs)"
  by (simp add: py_set_def)

lemma last_py_set: "xs \<noteq> [] \<Longrightarrow> last (py_set rank xs) \<in> set xs"
proof -
  assume "xs \<noteq> []"
  then have "set (py_set rank xs) \<noteq> {}" by (simp add: set_py_set)
  then have "py_set rank xs \<noteq> []" by auto
  then have "last (py_set rank xs) \<in> set (py_set rank xs)" by (rule last_in_set)
  then show ?thesis by (simp add: set_py_set)
qed

lemma set_extend_file_exists:
  "set (extend (file_exists e seqs path ext))
     = {x \<in> set seqs. \<not> path_exists e (path @ x @ ext)}"
  by (auto simp: extend_def file_exists_def Let_def filter_empty_conv)

section \<open>How the stages change the two lists\<close>

lemma lists_ok_same:
  "sequence_list s' = sequence_list s \<Longrightarrow>
   unsuccessful_sequences s' = unsuccessful_sequences s \<Longrightarrow> lists_ok W s s'"
  by (simp add: lists_ok_def)

lemma lists_ok_trans: "lists_ok W s s' \<Longrightarrow> lists_ok W s' s'' \<Longrightarrow> lists_ok W s s''"
  unfolding lists_ok_def by blast

lemma lists_ok_drop:
  assumes "py_remove item (sequence_list s) = Some (sequence_list s')"
    and "unsuccessful_sequences s' = unsuccessful_sequences s @ [item]"
  shows "lists_ok W s s'"
proof -
  from assms(1) have l: "sequence_list s' = remove1 item (sequence_list s)"
    by (simp add: py_remove_def split: if_splits)
  have sub: "set (sequence_list s') \<subseteq> set (sequence_list s)"
    using l set_remove1_subset by fastforce
  have cover: "set (sequence_list s) \<subseteq> set (sequence_list s') \<union> {item}"
    using l in_set_remove1 by fastforce
  have dis: "distinct (sequence_list s) \<Longrightarrow>
             distinct (sequence_list s') \<and> item \<notin> set (sequence_list s')"
    using l by simp
  show ?thesis
    unfolding lists_ok_def using sub cover dis assms(2) by auto
qed

lemma lists_ok_append:
  "sequence_list s' = sequence_list s \<Longrightarrow>
   unsuccessful_sequences s' = unsuccessful_sequences s @ [w] \<Longrightarrow> w \<in> W \<Longrightarrow>
   lists_ok W s s'"
  unfolding lists_ok_def by auto

lemma fastqc_names_mono: "set xs \<subseteq> set ys \<Longrightarrow> fastqc_names xs \<subseteq> fastqc_names ys"
  by (auto simp: fastqc_names_def)

lemma trimming_cases:
  assumes "trimming a e s = Inr s'"
  shows "(sequence_list s' = sequence_list s
          \<and> unsuccessful_sequences s' = unsuccessful_sequences s)
         \<or> (\<exists>item. py_remove item (sequence_list s) = Some (sequence_list s')
                   \<and> unsuccessful_sequences s' = unsuccessful_sequences s @ [item])"
  using assms unfolding trimming_def Let_def
  by (auto simp: run_command_effect split: if_splits option.splits)

lemma trimming_lists: "trimming a e s = Inr s' \<Longrightarrow> lists_ok W s s'"
  using trimming_cases [of a e s s'] lists_ok_same lists_ok_drop by blast

lemma set_fastqc_items: "set (fastqc_items e seqs) \<subseteq> fastqc_names seqs"
  by (auto simp: fastqc_items_def fastqc_names_def set_extend_file_exists)

lemma fastqc_cases:
  assumes "fastqc a e s = Inr s'"
  shows "sequence_list s' = sequence_list s
         \<and> (unsuccessful_sequences s' = unsuccessful_sequences s
            \<or> (\<exists>w \<in> fastqc_names (sequence_list s).
                 unsuccessful_sequences s' = unsuccessful_sequences s @ [w]))"
proof -
  have "fastqc_items e (sequence_list s) \<noteq> [] \<Longrightarrow>
        last (py_set (hash_rank e 1) (fastqc_items e (sequence_list s)))
          \<in> fastqc_names (sequence_list s)"
    using last_py_set set_fastqc_items by blast
  with assms show ?thesis
    unfolding fastqc_def Let_def
    by (auto simp: run_command_effect split: if_splits)
qed

lemma fastqc_lists:
  "fastqc a e s = Inr s' \<Longrightarrow> fastqc_names (sequence_list s) \<subseteq> W \<Longrightarrow> lists_ok W s s'"
  using fastqc_cases [of a e s s'] lists_ok_same [of s' s W] lists_ok_append [of s' s _ W]
  by blast

lemma assembly_scan_effect:
  "\<exists>cs. case_sum snd snd (assembly_scan e seqs rl s) = effect cs s
        \<and> set cs \<subseteq> (\<lambda>x. Ext (MvRaw x)) ` set seqs"
proof (induction seqs arbitrary: rl s)
  case Nil
  have "case_sum snd snd (assembly_scan e [] rl s) = effect [] s"
    by (simp add: effect_Nil)
  then show ?case by fastforce
next
  case (Cons seq seqs)
  show ?case
  proof (cases "assembly_marker seq \<in> files s")
    case False
    with Cons [of "rl @ [seq]" s] show ?thesis by auto
  next
    case True
    let ?s1 = "effect [Ext (MvRaw seq)] s"
    show ?thesis
    proof (cases "fst (run_command e [Run (Ext (MvRaw seq))] s)")
      case True
      with \<open>assembly_marker seq \<in> files s\<close>
      have "case_sum snd snd (assembly_scan e (seq # seqs) rl s) = ?s1"
        by (simp add: Let_def run_command_effect)
      then show ?thesis by fastforce
    next
      case False
      from Cons [of rl ?s1] obtain cs where
        cs: "case_sum snd snd (assembly_scan e seqs rl ?s1) = effect cs ?s1"
            "set cs \<subseteq> (\<lambda>x. Ext (MvRaw x)) ` set seqs"
        by blast
      from False \<open>assembly_marker seq \<in> files s\<close>
      have "case_sum snd snd (assembly_scan e (seq # seqs) rl s)
              = effect (Ext (MvRaw seq) # cs) s"
        using cs(1) effect_append [of "[Ext (MvRaw seq)]" cs s]
        by (simp add: Let_def run_command_effect)
      moreover have "set (Ext (MvRaw seq) # cs) \<subseteq> (\<lambda>x. Ext (MvRaw x)) ` set (seq # seqs)"
        using cs(2) by auto
      ultimately show ?thesis by blast
    qed
  qed
qed

lemma assembly_cases:
  assumes "assembly a e s = Inr s'"
  shows "sequence_list s' = sequence_list s
         \<and> unsuccessful_sequences s' = unsuccessful_sequences s"
proof -
  obtain cs where cs:
    "case_sum snd snd (assembly_scan e (sequence_list s) [] s) = effect cs s"
    using assembly_scan_effect by blast
  from assms cs show ?thesis
    unfolding assembly_def Let_def
    by (auto simp: run_command_effect split: sum.splits if_splits)
qed

lemma depth_try_frame:
  "sequence_list (snd (depth_try e item s)) = sequence_list s"
  "unsuccessful_sequences (snd (depth_try e item s)) = unsuccessful_sequences s"
  by (simp_all add: depth_try_def Let_def run_command_effect)

lemma depth_loop_lists: "depth_loop e items s = Inr s' \<Longrightarrow> lists_ok W s s'"
proof (induction items arbitrary: s)
  case Nil
  then show ?case by (simp add: lists_ok_same)
next
  case (Cons item items)
  let ?r = "depth_try e item s"
  show ?case
  proof (cases "fst ?r")
    case False
    with Cons.prems have "depth_loop e items (snd ?r) = Inr s'"
      by (simp add: Let_def)
    then have "lists_ok W (snd ?r) s'" by (rule Cons.IH)
    moreover have "lists_ok W s (snd ?r)"
      by (simp add: lists_ok_same depth_try_frame)
    ultimately show ?thesis using lists_ok_trans by blast
  next
    case True
    with Cons.prems obtain l where
      l: "py_remove item (sequence_list (snd ?r)) = Some l"
      and rest: "depth_loop e items
                   ((snd ?r)\<lparr>sequence_list := l,
                      unsuccessful_sequences :=
                        unsuccessful_sequences (snd ?r) @ [item]\<rparr>) = Inr s'"
      by (auto simp: Let_def split: option.splits)
    let ?s1 = "(snd ?r)\<lparr>sequence_list := l,
                 unsuccessful_sequences := unsuccessful_sequences (snd ?r) @ [item]\<rparr>"
    have "lists_ok W s ?s1"
      using l by (intro lists_ok_drop [where item = item]) (simp_all add: depth_try_frame)
    moreover have "lists_ok W ?s1 s'" using rest by (rule Cons.IH)
    ultimately show ?thesis using lists_ok_trans by blast
  qed
qed

lemma depth_lists: "depth a e s = Inr s' \<Longrightarrow> lists_ok W s s'"
proof -
  assume run: "depth a e s = Inr s'"
  show ?thesis
  proof (cases "nocov a \<or> noex a")
    case True
    with run show ?thesis by (auto simp: depth_def lists_ok_same)
  next
    case False
    with run obtain s1 where
      s1: "(if depth_list s = [] then Inr s
            else depth_loop e (py_set (hash_rank e 3) (depth_list s)) s) = Inr s1"
      and s': "s' = snd (run_command e [Run (Ext CatCov)] s1)"
      by (auto simp: depth_def Let_def split: sum.splits if_splits)
    from s1 have "lists_ok W s s1"
      by (auto simp: lists_ok_same depth_loop_lists split: if_splits)
    moreover have "lists_ok W s1 s'"
      using s' by (simp add: lists_ok_same run_command_effect)
    ultimately show ?thesis using lists_ok_trans by blast
  qed
qed

lemma stage_lists:
  assumes "f \<in> set (pipeline a e)" and "f s = Inr s'"
    and "fastqc_names (sequence_list s) \<subseteq> W"
  shows "lists_ok W s s'"
proof -
  from assms(1) consider "f = trimming a e" | "f = fastqc a e" | "f = assembly a e"
    | "f = quast a e" | "f = mlst a e" | "f = depth a e" | "f = kleborate a e"
    by (auto simp: pipeline_def)
  then show ?thesis
  proof cases
    case 1 with assms(2) show ?thesis by (simp add: trimming_lists)
  next
    case 2 with assms(2,3) show ?thesis by (simp add: fastqc_lists)
  next
    case 3 with assms(2) show ?thesis using assembly_cases lists_ok_same by blast
  next
    case 4 with assms(2) show ?thesis
      by (auto simp: quast_def run_command_effect lists_ok_same split: if_splits)
  next
    case 5 with assms(2) show ?thesis
      by (auto simp: mlst_def run_command_effect lists_ok_same split: if_splits)
  next
    case 6 with assms(2) show ?thesis by (simp add: depth_lists)
  next
    case 7 with assms(2) show ?thesis
      by (auto simp: kleborate_def run_command_effect lists_ok_same split: if_splits)
  qed
qed

lemma run_stages_lists:
  assumes "set fs \<subseteq> set (pipeline a e)" and "run_stages fs s = Inr s'"
    and "fastqc_names (sequence_list s) \<subseteq> W"
  shows "lists_ok W s s'"
  using assms
proof (induction fs arbitrary: s)
  case Nil
  then show ?case by (simp add: lists_ok_same)
next
  case (Cons f fs)
  from Cons.prems(2) obtain s1 where f: "f s = Inr s1" and rest: "run_stages fs s1 = Inr s'"
    by (auto split: sum.splits)
  from Cons.prems(1) have mem: "f \<in> set (pipeline a e)" and sub: "set fs \<subseteq> set (pipeline a e)"
    by auto
  have one: "lists_ok W s s1" using mem f Cons.prems(3) by (rule stage_lists)
  then have "set (sequence_list s1) \<subseteq> set (sequence_list s)" by (simp add: lists_ok_def)
  then have "fastqc_names (sequence_list s1) \<subseteq> W"
    using fastqc_names_mono Cons.prems(3) by blast
  with sub rest have "lists_ok W s1 s'" by (rule Cons.IH)
  with one show ?case by (rule lists_ok_trans)
qed



section \<open>Which programs a run may start\<close>

lemma grows_refl: "grows a e s s"
  by (simp add: grows_def)

lemma grows_trans: "grows a e s s' \<Longrightarrow> grows a e s' s'' \<Longrightarrow> grows a e s s''"
  unfolding grows_def by (elim conjE exE) auto

lemma log_ok_grows: "log_ok a e s \<Longrightarrow> grows a e s s' \<Longrightarrow> log_ok a e s'"
  unfolding grows_def log_ok_def by auto

lemma grows_effect:
  "list_all (permitted a e) (concat (map simple_tools cs)) \<Longrightarrow> grows a e s (effect cs s)"
  by (simp add: grows_def effect_log effect_files)

lemma tools_jobs:
  "list_all P (concat (map simple_tools (concat (map job xs))))
     = list_all (\<lambda>x. list_all P (concat (map simple_tools (job x)))) xs"
  by (induction xs) simp_all

lemma list_all_py_set: "list_all P (py_set rank xs) = list_all P xs"
  by (simp add: list_all_iff set_py_set)

lemma trimming_grows:
  assumes "log_ok a e s"
  shows "grows a e s (state_of (trimming a e s))"
proof -
  let ?s0 = "effect [Ext MvValPre] s"
  let ?run_list =
    "extend (file_exists e (sequence_list s) ''./trimmed_reads/'' ''_1_val_1.fq.gz'')
     @ extend (file_exists e (sequence_list s) ''./trimmed_reads/'' ''_2_val_2.fq.gz'')"
  let ?uniq = "py_set (hash_rank e 0) ?run_list"
  let ?cs = "concat (map trim_job ?uniq) @ [Ext Cd]"
  have absent: "list_all (trimmed_absent e) ?run_list"
    by (auto simp: list_all_iff set_extend_file_exists trimmed_absent_def)
  have ok1: "list_all (permitted a e) (concat (map simple_tools ?cs))"
    using absent by (simp add: tools_jobs list_all_py_set trim_job_def)
  have g0: "grows a e s ?s0" by (simp add: grows_effect)
  have g1: "grows a e ?s0 (effect ?cs ?s0)" using ok1 by (rule grows_effect)
  have g2: "grows a e (effect ?cs ?s0) (effect [Ext MvVal] (effect ?cs ?s0))"
    by (simp add: grows_effect)
  have g01: "grows a e s (effect ?cs ?s0)" using g0 g1 by (rule grows_trans)
  have g02: "grows a e s (effect [Ext MvVal] (effect ?cs ?s0))"
    using g01 g2 by (rule grows_trans)
  have shrink: "\<And>t l it r. grows a e s t \<Longrightarrow> py_remove it (sequence_list t) = Some l \<Longrightarrow>
      grows a e s (t\<lparr>removed := r, sequence_list := l,
                       unsuccessful_sequences := unsuccessful_sequences t @ [it]\<rparr>)"
    using set_remove1_subset
    by (fastforce simp: grows_def py_remove_def split: if_splits)
  have keep: "\<And>t r. grows a e s t \<Longrightarrow> grows a e s (t\<lparr>removed := r\<rparr>)"
    by (simp add: grows_def)
  show ?thesis
    unfolding trimming_def Let_def
    using g0 g01 g02 shrink [OF g01] shrink [OF g02] keep [OF g01] keep [OF g02]
    by (simp add: run_command_effect split: option.splits)
qed

lemma fastqc_items_absent:
  "set seqs \<subseteq> set (discovered e) \<Longrightarrow> list_all (fastqc_absent e) (fastqc_items e seqs)"
  by (auto simp: list_all_iff fastqc_items_def fastqc_absent_def list_ex_iff
        set_extend_file_exists)

lemma fastqc_grows:
  assumes "log_ok a e s"
  shows "grows a e s (state_of (fastqc a e s))"
proof (cases "nofqc a \<or> noex a")
  case True
  then show ?thesis by (auto simp: fastqc_def grows_refl)
next
  case False
  let ?uniq = "py_set (hash_rank e 1) (fastqc_items e (sequence_list s))"
  let ?cs = "concat (map fastqc_job ?uniq) @ [Ext Cd]"
  from assms have "set (sequence_list s) \<subseteq> set (discovered e)"
    by (simp add: log_ok_def)
  then have "list_all (fastqc_absent e) (fastqc_items e (sequence_list s))"
    by (rule fastqc_items_absent)
  with False have ok1: "list_all (permitted a e) (concat (map simple_tools ?cs))"
    by (simp add: tools_jobs list_all_py_set fastqc_job_def)
  have g1: "grows a e s (effect ?cs s)" using ok1 by (rule grows_effect)
  have keep: "\<And>t u. grows a e s t \<Longrightarrow> grows a e s (t\<lparr>unsuccessful_sequences := u\<rparr>)"
    by (simp add: grows_def)
  have multi: "\<And>t. grows a e s t \<Longrightarrow> grows a e s (effect [Ext MultiQC] t)"
  proof -
    fix t assume "grows a e s t"
    moreover have "grows a e t (effect [Ext MultiQC] t)"
      using False by (simp add: grows_effect)
    ultimately show "grows a e s (effect [Ext MultiQC] t)" by (rule grows_trans)
  qed
  show ?thesis
    unfolding fastqc_def Let_def
    using False multi [OF grows_refl] multi [OF g1] multi [OF keep [OF g1]]
    by (simp add: run_command_effect)
qed

lemma assembly_scan_list:
  "assembly_scan e seqs rl s = Inr (rl', s1) \<Longrightarrow>
   set rl' \<subseteq> set rl \<union> {x. assembly_marker x \<notin> files s}"
proof (induction seqs arbitrary: rl s)
  case Nil
  then show ?case by auto
next
  case (Cons seq seqs)
  show ?case
  proof (cases "assembly_marker seq \<in> files s")
    case False
    with Cons.prems have "assembly_scan e seqs (rl @ [seq]) s = Inr (rl', s1)" by simp
    from Cons.IH [OF this] False show ?thesis by auto
  next
    case True
    let ?s1 = "effect [Ext (MvRaw seq)] s"
    from True Cons.prems have "assembly_scan e seqs rl ?s1 = Inr (rl', s1)"
      by (simp add: Let_def run_command_effect split: if_splits)
    from Cons.IH [OF this] show ?thesis by (simp add: effect_files)
  qed
qed

lemma mv_raw_permitted:
  "set cs \<subseteq> (\<lambda>x. Ext (MvRaw x)) ` X \<Longrightarrow>
   list_all (permitted a e) (concat (map simple_tools cs))"
  by (induction cs) auto

lemma assembly_grows:
  assumes "log_ok a e s"
  shows "grows a e s (state_of (assembly a e s))"
proof -
  obtain cs where cs:
    "case_sum snd snd (assembly_scan e (sequence_list s) [] s) = effect cs s"
    "set cs \<subseteq> (\<lambda>x. Ext (MvRaw x)) ` set (sequence_list s)"
    using assembly_scan_effect by blast
  have g0: "grows a e s (effect cs s)"
    using cs(2) by (intro grows_effect) (rule mv_raw_permitted)
  show ?thesis
  proof (cases "assembly_scan e (sequence_list s) [] s")
    case (Inl x)
    with cs(1) g0 show ?thesis by (simp add: assembly_def)
  next
    case (Inr y)
    obtain run_list s1 where y: "y = (run_list, s1)" by (cases y)
    with Inr cs(1) have s1: "s1 = effect cs s" by simp
    from Inr y have "set run_list \<subseteq> {x. assembly_marker x \<notin> files s}"
      using assembly_scan_list [of e "sequence_list s" "[]" s run_list s1] by simp
    moreover from assms have "success_files e \<subseteq> files s" by (simp add: log_ok_def)
    ultimately have fresh_marker:
      "list_all (\<lambda>x. assembly_marker x \<notin> success_files e) run_list"
      by (auto simp: list_all_iff)
    let ?uniq = "py_set (hash_rank e 2) run_list"
    let ?ds = "[Ext CdTrimmed] @ concat (map (unicycler_job e) ?uniq) @ [Ext Cd]"
    have "list_all (permitted a e) (concat (map simple_tools ?ds))"
      using fresh_marker by (simp add: tools_jobs list_all_py_set unicycler_job_def)
    then have g1: "grows a e s1 (effect ?ds s1)" by (rule grows_effect)
    have g2: "\<And>t. grows a e t (effect [Ext MvReports] t)" by (simp add: grows_effect)
    have a: "grows a e s (effect [Ext MvReports] s1)"
      using g0 g2 s1 grows_trans by blast
    have b: "grows a e s (effect [Ext MvReports] (effect ?ds s1))"
      using g0 g1 g2 s1 grows_trans by blast
    show ?thesis
      unfolding assembly_def Let_def using Inr y a b
      by (simp add: run_command_effect)
  qed
qed

lemma quast_grows: "grows a e s (state_of (quast a e s))"
  by (simp add: quast_def grows_refl grows_effect run_command_effect)

lemma mlst_grows: "grows a e s (state_of (mlst a e s))"
  by (simp add: mlst_def grows_refl grows_effect run_command_effect)

lemma kleborate_grows: "grows a e s (state_of (kleborate a e s))"
  by (simp add: kleborate_def grows_refl grows_effect run_command_effect)

lemma depth_try_grows:
  "depth_on a e item \<Longrightarrow> grows a e s (snd (depth_try e item s))"
  by (auto simp: depth_try_def Let_def run_command_effect grows_def effect_log effect_files)

lemma depth_loop_grows:
  "list_all (depth_on a e) items \<Longrightarrow> grows a e s (state_of (depth_loop e items s))"
proof (induction items arbitrary: s)
  case Nil
  then show ?case by (simp add: grows_refl)
next
  case (Cons item items)
  let ?r = "depth_try e item s"
  from Cons.prems have on: "depth_on a e item" and rest: "list_all (depth_on a e) items"
    by simp_all
  have g: "grows a e s (snd ?r)" using on by (rule depth_try_grows)
  show ?case
  proof (cases "fst ?r")
    case False
    then have "state_of (depth_loop e (item # items) s)
                 = state_of (depth_loop e items (snd ?r))"
      by (simp add: Let_def)
    with g Cons.IH [OF rest, of "snd ?r"] show ?thesis
      using grows_trans by metis
  next
    case True
    show ?thesis
    proof (cases "py_remove item (sequence_list (snd ?r))")
      case None
      with True g show ?thesis by (simp add: Let_def)
    next
      case (Some l)
      let ?s1 = "(snd ?r)\<lparr>sequence_list := l,
                   unsuccessful_sequences := unsuccessful_sequences (snd ?r) @ [item]\<rparr>"
      from Some have "set l \<subseteq> set (sequence_list (snd ?r))"
        using set_remove1_subset by (fastforce simp: py_remove_def split: if_splits)
      then have "grows a e (snd ?r) ?s1" by (simp add: grows_def)
      with g have "grows a e s ?s1" by (rule grows_trans)
      moreover from True Some
      have "state_of (depth_loop e (item # items) s) = state_of (depth_loop e items ?s1)"
        by (simp add: Let_def)
      ultimately show ?thesis using Cons.IH [OF rest, of ?s1] grows_trans by metis
    qed
  qed
qed

lemma depth_grows:
  assumes "log_ok a e s"
  shows "grows a e s (state_of (depth a e s))"
proof (cases "nocov a \<or> noex a")
  case True
  then show ?thesis by (auto simp: depth_def grows_refl)
next
  case False
  from assms have "success_files e \<subseteq> files s" by (simp add: log_ok_def)
  with False have "list_all (depth_on a e) (depth_list s)"
    by (auto simp: list_all_iff depth_list_def depth_on_def)
  then have "list_all (depth_on a e) (py_set (hash_rank e 3) (depth_list s))"
    by (simp add: list_all_py_set)
  then have loop: "grows a e s
      (state_of (depth_loop e (py_set (hash_rank e 3) (depth_list s)) s))"
    by (rule depth_loop_grows)
  let ?r = "if depth_list s = [] then Inr s
            else depth_loop e (py_set (hash_rank e 3) (depth_list s)) s"
  have g: "grows a e s (state_of ?r)" using loop by (simp add: grows_refl)
  have cat: "\<And>t. grows a e t (effect [Ext CatCov] t)"
    using False by (simp add: grows_effect)
  show ?thesis
  proof (cases ?r)
    case (Inl x)
    with g False show ?thesis by (simp add: depth_def)
  next
    case (Inr s1)
    with g have "grows a e s s1" by simp
    then have "grows a e s (effect [Ext CatCov] s1)" using cat grows_trans by blast
    with Inr False show ?thesis
      by (simp add: depth_def Let_def run_command_effect)
  qed
qed

lemma stage_grows:
  assumes "f \<in> set (pipeline a e)" and "log_ok a e s"
  shows "grows a e s (state_of (f s))"
proof -
  from assms(1) consider "f = trimming a e" | "f = fastqc a e" | "f = assembly a e"
    | "f = quast a e" | "f = mlst a e" | "f = depth a e" | "f = kleborate a e"
    by (auto simp: pipeline_def)
  then show ?thesis
    using assms(2)
    by cases (simp_all add: trimming_grows fastqc_grows assembly_grows quast_grows
                mlst_grows depth_grows kleborate_grows)
qed

lemma run_stages_grows:
  assumes "set fs \<subseteq> set (pipeline a e)" and "log_ok a e s"
  shows "grows a e s (state_of (run_stages fs s))"
  using assms
proof (induction fs arbitrary: s)
  case Nil
  then show ?case by (simp add: grows_refl)
next
  case (Cons f fs)
  from Cons.prems have one: "grows a e s (state_of (f s))"
    by (intro stage_grows) simp_all
  show ?case
  proof (cases "f s")
    case (Inl x)
    with one show ?thesis by simp
  next
    case (Inr s1)
    with one have g: "grows a e s s1" by simp
    with Cons.prems(2) have "log_ok a e s1" by (rule log_ok_grows)
    with Cons.prems(1) have "grows a e s1 (state_of (run_stages fs s1))"
      by (intro Cons.IH) simp_all
    with g Inr show ?thesis using grows_trans by fastforce
  qed
qed

section \<open>The whole run\<close>

lemma distinct_discover: "distinct acc \<Longrightarrow> distinct (discover seqs acc)"
  by (induction seqs arbitrary: acc) (simp_all add: Let_def)

lemma distinct_discovered: "distinct (discovered e)"
  by (simp add: discovered_def distinct_discover)

lemma start_fields:
  "sequence_list (start e) = discovered e"
  "unsuccessful_sequences (start e) = []"
  "manifest (start e) = None"
  "files (start e) = success_files e"
  "log (start e) = [Rename1, Rename2]"
  by (simp_all add: start_def init_def effect_def)

lemma log_ok_start: "log_ok a e (start e)"
  by (simp add: log_ok_def start_fields)

lemma renames_start:
  "(snd (run_command e [Run (Ext Rename2)] (snd (run_command e [Run (Ext Rename1)] (init e)))))
     \<lparr>sequence_list := discover (sequences e) []\<rparr> = start e"
  by (simp add: run_command_effect start_def discovered_def effect_def)

lemma finish_fields:
  "log (snd (finish a e s)) = log s \<or> log (snd (finish a e s)) = log s @ [MvFastq]"
  "manifest (snd (finish a e s)) = manifest s"
  "sequence_list (snd (finish a e s)) = sequence_list s"
  by (simp_all add: finish_def run_command_effect effect_log split: sum.splits)

text \<open>The five ways \<open>main\<close> can go.\<close>

lemma main_cases:
  obtains (early) "snd (main a e) = init e"
  | (rename1) "snd (main a e) = effect [Ext Rename1] (init e)"
  | (rename2) "snd (main a e) = effect [Ext Rename1, Ext Rename2] (init e)"
  | (unpaired) "main a e = (SysExit, start e)"
  | (stage) x where "run_stages (pipeline a e) (start e) = Inl x"
      and "main a e = (Crash (fst x), snd x)"
  | (manifests) s' where "run_stages (pipeline a e) (start e) = Inr s'"
      and "main a e = finish a e (write_manifest s')"
proof -
  let ?r1 = "run_command e [Run (Ext Rename1)] (init e)"
  let ?r2 = "run_command e [Run (Ext Rename2)] (snd ?r1)"
  have two: "effect [Ext Rename2] (effect [Ext Rename1] (init e))
               = effect [Ext Rename1, Ext Rename2] (init e)"
    using effect_append [of "[Ext Rename1]" "[Ext Rename2]" "init e"] by simp
  consider "\<not> versions_ok e \<or> \<not> move_ok e
            \<or> \<not> list_ex (\<lambda>File. endswith File ''.fastq.gz'') (listing e)"
    | "versions_ok e" "move_ok e"
      "list_ex (\<lambda>File. endswith File ''.fastq.gz'') (listing e)" "fst ?r1"
    | "versions_ok e" "move_ok e"
      "list_ex (\<lambda>File. endswith File ''.fastq.gz'') (listing e)" "\<not> fst ?r1" "fst ?r2"
    | "versions_ok e" "move_ok e"
      "list_ex (\<lambda>File. endswith File ''.fastq.gz'') (listing e)" "\<not> fst ?r1" "\<not> fst ?r2"
    by blast
  then show thesis
  proof cases
    case 1
    then have "snd (main a e) = init e" by (auto simp: main_def)
    then show thesis by (rule early)
  next
    case 2
    then have "snd (main a e) = effect [Ext Rename1] (init e)"
      by (simp add: main_def Let_def run_command_effect)
    then show thesis by (rule rename1)
  next
    case 3
    then have "snd (main a e) = effect [Ext Rename1, Ext Rename2] (init e)"
      by (simp add: main_def Let_def run_command_effect two)
    then show thesis by (rule rename2)
  next
    case 4
    then have m: "main a e =
        (if missing_pairs (sequences e) (sequence_list (start e)) \<noteq> [] then (SysExit, start e)
         else (case run_stages (pipeline a e) (start e) of
                 Inl x \<Rightarrow> (Crash (fst x), snd x)
               | Inr s' \<Rightarrow> finish a e (write_manifest s')))"
      using renames_start [of e] by (simp add: main_def Let_def)
    show thesis
    proof (cases "missing_pairs (sequences e) (sequence_list (start e)) \<noteq> []")
      case True
      with m show thesis using unpaired by simp
    next
      case False
      show thesis
      proof (cases "run_stages (pipeline a e) (start e)")
        case (Inl x)
        with m False show thesis using stage by simp
      next
        case (Inr s')
        with m False show thesis using manifests by simp
      qed
    qed
  qed
qed

lemma main_log: "list_all (permitted a e) (log (snd (main a e)))"
proof (cases a e rule: main_cases)
  case early
  then show ?thesis by (simp add: init_def)
next
  case rename1
  then show ?thesis by (simp add: init_def effect_log)
next
  case rename2
  then show ?thesis by (simp add: init_def effect_log)
next
  case unpaired
  then show ?thesis by (simp add: start_fields)
next
  case (stage x)
  have "grows a e (start e) (state_of (run_stages (pipeline a e) (start e)))"
    by (intro run_stages_grows log_ok_start) simp
  then have "log_ok a e (snd x)"
    using stage(1) log_ok_start log_ok_grows by fastforce
  with stage(2) show ?thesis by (simp add: log_ok_def)
next
  case (manifests s')
  have "grows a e (start e) (state_of (run_stages (pipeline a e) (start e)))"
    by (intro run_stages_grows log_ok_start) simp
  then have "log_ok a e s'"
    using manifests(1) log_ok_start log_ok_grows by fastforce
  then have "list_all (permitted a e) (log (write_manifest s'))"
    by (simp add: log_ok_def write_manifest_def)
  with manifests(2) show ?thesis
    using finish_fields(1) [of a e "write_manifest s'"] by auto
qed

lemma main_manifest:
  assumes "manifest (snd (main a e)) = Some m"
  obtains s' where "run_stages (pipeline a e) (start e) = Inr s'"
    and "m = (sequence_list s', unsuccessful_sequences s')"
proof (cases a e rule: main_cases)
  case early
  with assms show ?thesis by (simp add: init_def)
next
  case rename1
  with assms show ?thesis by (simp add: init_def)
next
  case rename2
  with assms show ?thesis by (simp add: init_def)
next
  case unpaired
  with assms show ?thesis by (simp add: start_fields)
next
  case (stage x)
  have "grows a e (start e) (state_of (run_stages (pipeline a e) (start e)))"
    by (intro run_stages_grows log_ok_start) simp
  with stage(1) have "manifest (snd x) = None"
    by (simp add: grows_def start_fields)
  with assms stage(2) show ?thesis by simp
next
  case (manifests s')
  with assms have "m = (sequence_list s', unsuccessful_sequences s')"
    by (simp add: finish_fields write_manifest_def)
  with manifests(1) show ?thesis using that by blast
qed

section \<open>The outer join\<close>

lemma merge_key_key: "r \<in> set (merge_key wl wr left right k) \<Longrightarrow> fst r = k"
  by (auto simp: merge_key_def Let_def split: if_splits)

lemma merge_key_left:
  assumes "(k, cs) \<in> set left"
  shows "\<exists>cs'. (k, cs') \<in> set (merge_key wl wr left right k)"
proof (cases "filter (\<lambda>r. fst r = k) right")
  case Nil
  from assms have "(k, cs @ replicate wr None) \<in> set (merge_key wl wr left right k)"
    using Nil by (force simp: merge_key_def Let_def)
  then show ?thesis by blast
next
  case (Cons r rs)
  from assms have mem: "(k, cs) \<in> set (filter (\<lambda>r. fst r = k) left)" by simp
  from assms have "filter (\<lambda>r. fst r = k) left \<noteq> []"
    by (force simp: filter_empty_conv)
  with Cons have "merge_key wl wr left right k
      = concat (map (\<lambda>l. map (\<lambda>r. (k, snd l @ snd r)) (r # rs))
                 (filter (\<lambda>r. fst r = k) left))"
    by (simp add: merge_key_def Let_def)
  moreover have "(k, cs @ snd r)
      \<in> set (concat (map (\<lambda>l. map (\<lambda>r. (k, snd l @ snd r)) (r # rs))
                       (filter (\<lambda>r. fst r = k) left)))"
    using mem by (auto intro!: bexI [of _ "(k, cs)"])
  ultimately show ?thesis by auto
qed

lemma set_merge_outer:
  "set (merge_outer wl wr left right)
     = (\<Union>k \<in> fst ` set left \<union> fst ` set right. set (merge_key wl wr left right k))"
  by (auto simp: merge_outer_def)

lemma merge_outer_left:
  assumes "k \<in> fst ` set left"
  shows "k \<in> fst ` set (merge_outer wl wr left right)"
proof -
  from assms obtain cs where "(k, cs) \<in> set left" by auto
  then obtain cs' where "(k, cs') \<in> set (merge_key wl wr left right k)"
    using merge_key_left by blast
  with assms have "(k, cs') \<in> set (merge_outer wl wr left right)"
    by (auto simp: set_merge_outer)
  then show ?thesis by force
qed

lemma merge_outer_row:
  assumes "(k, cs) \<in> set (merge_outer wl wr left right)" and "k \<in> fst ` set left"
  shows "\<exists>cl cr. cs = cl @ cr \<and> (k, cl) \<in> set left \<and> block wr right k cr"
proof -
  from assms(1) obtain k' where row: "(k, cs) \<in> set (merge_key wl wr left right k')"
    by (auto simp: set_merge_outer)
  then have "k' = k" using merge_key_key by fastforce
  with row have row: "(k, cs) \<in> set (merge_key wl wr left right k)" by simp
  from assms(2) have ls: "filter (\<lambda>r. fst r = k) left \<noteq> []"
    by (auto simp: filter_empty_conv)
  show ?thesis
  proof (cases "filter (\<lambda>r. fst r = k) right = []")
    case True
    then have "k \<notin> fst ` set right" by (auto simp: filter_empty_conv)
    moreover from row True obtain l where "l \<in> set left" "fst l = k"
      "cs = snd l @ replicate wr None"
      by (auto simp: merge_key_def Let_def)
    moreover from this have "(k, snd l) = l" by (metis prod.collapse)
    ultimately have "cs = snd l @ replicate wr None \<and> (k, snd l) \<in> set left
        \<and> block wr right k (replicate wr None)"
      by (simp add: block_def)
    then show ?thesis by blast
  next
    case False
    with row ls obtain l r where "l \<in> set left" "fst l = k" "r \<in> set right" "fst r = k"
      "cs = snd l @ snd r"
      by (auto simp: merge_key_def Let_def)
    moreover from this have "(k, snd l) = l" and "(k, snd r) = r"
      by (metis prod.collapse)+
    ultimately have "cs = snd l @ snd r \<and> (k, snd l) \<in> set left
        \<and> block wr right k (snd r)"
      by (simp add: block_def)
    then show ?thesis by blast
  qed
qed

lemma report_rows:
  assumes "report a e seqs = Inr t" and "x \<in> set seqs"
  shows "x \<in> fst ` set t
         \<and> (\<forall>cs. (x, cs) \<in> set t \<longrightarrow>
              (\<exists>c1 c2 c3 c4. cs = c1 @ c2 @ c3 @ c4
                 \<and> block 2 (mlst_df_sub (projr (mlst_file a e))) x c1
                 \<and> block 6 (quast_df_sub (projr (quast_file a e))) x c2
                 \<and> block 2 (cov_df_sub (projr (cov_file a e))) x c3
                 \<and> block 1 (fastqc_df_sub (projr (fastqc_file a e))) x c4))"
proof -
  from assms(1) obtain m q c f where
    files: "mlst_file a e = Inr m" "quast_file a e = Inr q" "cov_file a e = Inr c"
      "fastqc_file a e = Inr f"
    by (auto simp: report_def Let_def split: sum.splits)
  let ?t0 = "seq_df seqs"
  let ?t1 = "merge_outer 0 2 ?t0 (mlst_df_sub m)"
  let ?t2 = "merge_outer 2 6 ?t1 (quast_df_sub q)"
  let ?t3 = "merge_outer 8 2 ?t2 (cov_df_sub c)"
  from assms(1) files have t: "t = merge_outer 10 1 ?t3 (fastqc_df_sub f)"
    by (simp add: report_def Let_def)
  from assms(2) have k0: "x \<in> fst ` set ?t0" by (force simp: seq_df_def)
  then have k1: "x \<in> fst ` set ?t1" by (rule merge_outer_left)
  then have k2: "x \<in> fst ` set ?t2" by (rule merge_outer_left)
  then have k3: "x \<in> fst ` set ?t3" by (rule merge_outer_left)
  then have k4: "x \<in> fst ` set t" unfolding t by (rule merge_outer_left)
  have rows: "\<exists>c1 c2 c3 c4. cs = c1 @ c2 @ c3 @ c4
                 \<and> block 2 (mlst_df_sub m) x c1 \<and> block 6 (quast_df_sub q) x c2
                 \<and> block 2 (cov_df_sub c) x c3 \<and> block 1 (fastqc_df_sub f) x c4"
    if "(x, cs) \<in> set t" for cs
  proof -
    from that obtain d3 c4 where 4: "cs = d3 @ c4" "(x, d3) \<in> set ?t3"
      "block 1 (fastqc_df_sub f) x c4"
      unfolding t using merge_outer_row [OF _ k3] by blast
    from 4(2) obtain d2 c3 where 3: "d3 = d2 @ c3" "(x, d2) \<in> set ?t2"
      "block 2 (cov_df_sub c) x c3"
      using merge_outer_row [OF _ k2] by blast
    from 3(2) obtain d1 c2 where 2: "d2 = d1 @ c2" "(x, d1) \<in> set ?t1"
      "block 6 (quast_df_sub q) x c2"
      using merge_outer_row [OF _ k1] by blast
    from 2(2) obtain d0 c1 where 1: "d1 = d0 @ c1" "(x, d0) \<in> set ?t0"
      "block 2 (mlst_df_sub m) x c1"
      using merge_outer_row [OF _ k0] by blast
    from 1(2) have "d0 = []" by (auto simp: seq_df_def)
    with 1 2 3 4 show ?thesis by auto
  qed
  from k4 rows files show ?thesis by simp
qed

section \<open>The claims\<close>

text \<open>
  Claim C1: whenever a sample lacks one of its two mate files, the run stops before any
  stage. The check of lines 199 to 203 looks for \<open>seqName_2.f\<close> anywhere inside a file
  name, so the second mate of \<open>BA\<close> passes for the missing second mate of \<open>A\<close>: the run
  does not stop and TrimGalore is started on \<open>A\<close>.
\<close>

theorem missing_mate_not_detected:
  "''A_2.fastq.gz'' \<notin> set (sequences pair_gap) \<and> ''A'' \<in> set (discovered pair_gap)
   \<and> fst (main all_on pair_gap) \<noteq> SysExit
   \<and> TrimGalore ''A'' \<in> set (log (snd (main all_on pair_gap)))"
  by code_simp

text \<open>
  Claim C2: a sample's marker is written only when its worker succeeded. In the assembly
  job \<^verbatim>\<open>touch\<close> follows \<^verbatim>\<open>unicycler\<close> after a \<^verbatim>\<open>;\<close>, so the marker of \<open>A\<close> is written
  although Unicycler failed on it, and the next run, started on the files this one left,
  does not assemble \<open>A\<close> again.
\<close>

theorem marker_without_assembly:
  "status unicycler_fails (Unicycler ''A'') \<noteq> 0
   \<and> assembly_marker ''A'' \<in> files (snd (main all_on unicycler_fails))
   \<and> Unicycler ''A'' \<notin> set (log (snd (main all_on
        (unicycler_fails\<lparr>success_files := files (snd (main all_on unicycler_fails))\<rparr>))))"
  by code_simp

text \<open>
  Claim C3: a sample whose worker fails is the one removed from the active list, added to
  the failed list, and its partial files are deleted. When TrimGalore fails on \<open>B\<close> the
  command line still ends in a successful \<^verbatim>\<open>cd\<close>, so nothing is raised and \<open>B\<close> stays
  active; when the handler does run, it removes the sample the loop variable was left
  on, here \<open>A\<close>, and deletes nothing.
\<close>

theorem failed_trim_keeps_sample:
  "status trim_fails (TrimGalore ''B'') \<noteq> 0
   \<and> ''B'' \<in> set (sequence_list (snd (main all_on trim_fails)))
   \<and> unsuccessful_sequences (snd (main all_on trim_fails)) = []
   \<and> status trim_fails_mv (TrimGalore ''A'') = 0
   \<and> sequence_list (snd (main all_on trim_fails_mv)) = [''B'']
   \<and> unsuccessful_sequences (snd (main all_on trim_fails_mv)) = [''A'']
   \<and> removed (snd (main all_on trim_fails_mv)) = []"
  by code_simp

text \<open>
  Claim C7: a missing table degrades the report instead of crashing the process. With
  \<^verbatim>\<open>--nomlst\<close> in a fresh directory \<^verbatim>\<open>analyses/mlst.tsv\<close> is never written, and the
  unguarded \<^verbatim>\<open>pd.read_csv\<close> of line 461 ends the process with \<^verbatim>\<open>FileNotFoundError\<close>.
\<close>

theorem report_crash:
  "fst (main (all_on\<lparr>nomlst := True\<rparr>) (fresh [''A_1.fastq.gz'', ''A_2.fastq.gz'']))
     = Crash FileNotFoundError"
  by code_simp

text \<open>
  Claim C10: when no file of the working directory ends in \<^verbatim>\<open>.fastq.gz\<close>, \<open>main\<close> runs
  no program and ends in an uncaught \<^verbatim>\<open>NameError\<close>, the report reading a \<open>sequence_list\<close>
  that was never assigned.
\<close>

theorem no_fastq_name_error:
  assumes "versions_ok e" and "move_ok e"
    and "\<not> list_ex (\<lambda>File. endswith File ''.fastq.gz'') (listing e)"
  shows "main a e = (Crash NameError, init e) \<and> log (snd (main a e)) = []"
  using assms by (simp add: main_def init_def)

theorem no_fastq_name_error_witness:
  "versions_ok (fresh [''notes.txt'']) \<and> move_ok (fresh [''notes.txt''])
   \<and> \<not> list_ex (\<lambda>File. endswith File ''.fastq.gz'') (listing (fresh [''notes.txt'']))
   \<and> main all_on (fresh [''notes.txt''])
       = (Crash NameError, init (fresh [''notes.txt'']))
   \<and> log (snd (main all_on (fresh [''notes.txt'']))) = []"
proof -
  have h1: "versions_ok (fresh [''notes.txt''])" by (simp add: fresh_def)
  have h2: "move_ok (fresh [''notes.txt''])" by (simp add: fresh_def)
  have h3: "\<not> list_ex (\<lambda>File. endswith File ''.fastq.gz'') (listing (fresh [''notes.txt'']))"
    by (simp add: fresh_def endswith_def)
  show ?thesis using no_fastq_name_error [OF h1 h2 h3, of all_on] h1 h2 h3 by blast
qed





text \<open>
  Claim C8, as stated: the two manifests are disjoint. They are not when a sample bears
  the name of a FastQC work item and the FastQC command line fails: the handler of line
  290 appends that name to the failed list and removes nothing.
\<close>

theorem manifests_overlap:
  "manifest (snd (main all_on name_clash))
     = Some ([''A'', ''A_1_val_1.fq.gz''], [''A_1_val_1.fq.gz''])"
  by code_simp

text \<open>
  Claim C8, amended: when a run writes its manifests, every discovered sample is in the
  successful or in the failed one, the successful one lists discovered samples only and
  none twice, and a name in both is the name of a FastQC work item.
\<close>

theorem manifests_cover:
  assumes "manifest (snd (main a e)) = Some (ok, failed)"
  shows "set (discovered e) \<subseteq> set ok \<union> set failed \<and> set ok \<subseteq> set (discovered e)
         \<and> distinct ok \<and> set ok \<inter> set failed \<subseteq> fastqc_names (discovered e)"
proof -
  from assms obtain s' where run: "run_stages (pipeline a e) (start e) = Inr s'"
    and m: "(ok, failed) = (sequence_list s', unsuccessful_sequences s')"
    by (rule main_manifest)
  have "lists_ok (fastqc_names (discovered e)) (start e) s'"
    using run by (intro run_stages_lists [of "pipeline a e" a e]) (simp_all add: start_fields)
  with m show ?thesis
    using distinct_discovered [of e] by (auto simp: lists_ok_def start_fields)
qed

theorem manifests_cover_witness:
  "manifest (snd (main all_on depth_fails)) = Some ([''B''], [''A''])
   \<and> set (discovered depth_fails) \<subseteq> set [''B''] \<union> set [''A'']
   \<and> set [''B''] \<subseteq> set (discovered depth_fails) \<and> distinct [''B'']
   \<and> set [''B''] \<inter> set [''A''] \<subseteq> fastqc_names (discovered depth_fails)"
proof -
  have h: "manifest (snd (main all_on depth_fails)) = Some ([''B''], [''A''])"
    by code_simp
  show ?thesis using manifests_cover [OF h] h by blast
qed

text \<open>
  Claim C9, as stated: \<^verbatim>\<open>--noex\<close> suppresses every stage after assembly, extended
  typing included. Kleborate is guarded by \<^verbatim>\<open>--klebs\<close> alone (line 436) and runs.
\<close>

theorem noex_kleborate:
  "noex (all_on\<lparr>noex := True, klebs := True\<rparr>)
   \<and> Kleborate \<in> set (log (snd (main (all_on\<lparr>noex := True, klebs := True\<rparr>)
         (fresh [''A_1.fastq.gz'', ''A_2.fastq.gz'']))))"
  by code_simp

text \<open>
  Claim C9, amended: with \<^verbatim>\<open>--noex\<close> set, no command of FastQC, MultiQC, Quast, mlst or
  the read-depth stage is run.
\<close>

theorem noex_suppresses_extras:
  assumes "noex a" and "t \<in> set (log (snd (main a e)))"
  shows "\<not> extra t"
proof -
  from assms(2) have "permitted a e t"
    using main_log [of a e] by (simp add: list_all_iff)
  with assms(1) show ?thesis
    by (cases t) (simp_all add: depth_on_def)
qed

theorem noex_suppresses_extras_witness:
  "noex (all_on\<lparr>noex := True\<rparr>)
   \<and> Unicycler ''A'' \<in> set (log (snd (main (all_on\<lparr>noex := True\<rparr>)
        (fresh [''A_1.fastq.gz'', ''A_2.fastq.gz'']))))
   \<and> \<not> extra (Unicycler ''A'')"
proof -
  have h1: "noex (all_on\<lparr>noex := True\<rparr>)" by (simp add: all_on_def)
  have h2: "Unicycler ''A'' \<in> set (log (snd (main (all_on\<lparr>noex := True\<rparr>)
        (fresh [''A_1.fastq.gz'', ''A_2.fastq.gz'']))))" by code_simp
  show ?thesis using noex_suppresses_extras [OF h1 h2] h1 h2 by blast
qed

text \<open>
  Claim C6: when the report is written, every sample of the final successful list has a
  row in it. The cells of such a row are four blocks, one per joined table, each the cells
  of a row that table has for the sample, or missing values when the table has no row for
  it.
\<close>

theorem report_keeps_every_sample:
  assumes "fst (main a e) = Finished t"
    and "x \<in> set (sequence_list (snd (main a e)))"
  shows "x \<in> fst ` set t
         \<and> (\<forall>cs. (x, cs) \<in> set t \<longrightarrow>
              (\<exists>c1 c2 c3 c4. cs = c1 @ c2 @ c3 @ c4
                 \<and> block 2 (mlst_df_sub (projr (mlst_file a e))) x c1
                 \<and> block 6 (quast_df_sub (projr (quast_file a e))) x c2
                 \<and> block 2 (cov_df_sub (projr (cov_file a e))) x c3
                 \<and> block 1 (fastqc_df_sub (projr (fastqc_file a e))) x c4))"
proof (cases a e rule: main_cases)
  case early
  with assms(2) show ?thesis by (simp add: init_def)
next
  case rename1
  with assms(2) show ?thesis by (simp add: init_def)
next
  case rename2
  with assms(2) show ?thesis by (simp add: init_def)
next
  case unpaired
  with assms(1) show ?thesis by simp
next
  case (stage x)
  with assms(1) show ?thesis by simp
next
  case (manifests s')
  with assms(1) have "report a e (sequence_list (write_manifest s')) = Inr t"
    by (simp add: finish_def split: sum.splits)
  moreover from manifests(2) assms(2) have "x \<in> set (sequence_list (write_manifest s'))"
    by (simp add: finish_fields)
  ultimately show ?thesis by (rule report_rows)
qed

theorem report_keeps_every_sample_witness:
  "fst (main all_on typed_a)
     = Finished [(''A'', [Some ''kpneumoniae'', Some ''11'', None, None, None, None, None,
                          None, None, None, None]),
                 (''B'', replicate 11 None)]
   \<and> ''B'' \<in> set (sequence_list (snd (main all_on typed_a)))
   \<and> ''B'' \<in> fst ` set [(''A'', [Some ''kpneumoniae'', Some ''11'', None, None, None, None,
                                 None, None, None, None, None]),
                        (''B'', replicate 11 None)]"
proof -
  have h1: "fst (main all_on typed_a)
     = Finished [(''A'', [Some ''kpneumoniae'', Some ''11'', None, None, None, None, None,
                          None, None, None, None]),
                 (''B'', replicate 11 None)]"
    by code_simp
  have h2: "''B'' \<in> set (sequence_list (snd (main all_on typed_a)))" by code_simp
  show ?thesis using report_keeps_every_sample [OF h1 h2] h1 h2 by blast
qed

end
